theory Spec2Isabelle
  imports Complex_Main "HOL-Library.Sublist" "HOL-Library.Multiset" "HOL-Library.AList"
begin

section \<open>Strings\<close>

text \<open>
  JavaScript strings are sequences of UTF-16 code units. They are modelled as HOL
  strings, whose characters are 8-bit: the development covers the strings whose code
  units are below 256, and \<open>length\<close> is the \<open>.length\<close> of the source.
\<close>

definition TAB :: char where "TAB = CHR 0x09"
definition LF :: char where "LF = CHR 0x0A"
definition CR :: char where "CR = CHR 0x0D"

section \<open>Orchestrator: sharding (index.js, \<open>shardArray\<close>)\<close>

text \<open>
  \<^verbatim>\<open>arr.forEach((v, i) => out[i % n].push(v))\<close>: the loop over the array, with the
  running index \<open>i\<close> and the array of shards \<open>out\<close> that is mutated in place.
\<close>

fun forEach_push :: "nat \<Rightarrow> nat \<Rightarrow> 'a list \<Rightarrow> 'a list list \<Rightarrow> 'a list list" where
  "forEach_push n i [] out = out"
| "forEach_push n i (v # vs) out =
     forEach_push n (Suc i) vs (out[i mod n := out ! (i mod n) @ [v]])"

text \<open>
  \<open>shardArray arr n\<close> for a worker count \<open>n\<close> that is a natural number. With \<open>n = 0\<close>
  the array \<open>out\<close> is empty and \<open>i % 0\<close> is \<open>NaN\<close>, so the first \<open>out[NaN].push\<close>
  throws a \<open>TypeError\<close>; an empty \<open>arr\<close> never reaches it.
\<close>

definition shardArray :: "'a list \<Rightarrow> nat \<Rightarrow> string + 'a list list" where
  "shardArray arr n =
     (if n = 0 \<and> arr \<noteq> [] then Inl ''Cannot read properties of undefined''
      else Inr (forEach_push n 0 arr (replicate n [])))"

record 'a limiter =
  active :: nat
  queue :: "'a list"
  started :: "'a list"
  settled :: nat

definition pLimit :: "'a limiter" where
  "pLimit = \<lparr>active = 0, queue = [], started = [], settled = 0\<rparr>"

definition next_task :: "nat \<Rightarrow> 'a limiter \<Rightarrow> 'a limiter" where
  "next_task mx s =
     (if active s \<ge> mx \<or> queue s = [] then s
      else s\<lparr>active := active s + 1, queue := tl (queue s),
             started := started s @ [hd (queue s)]\<rparr>)"

definition limit :: "nat \<Rightarrow> 'a \<Rightarrow> 'a limiter \<Rightarrow> 'a limiter" where
  "limit mx fn s = next_task mx (s\<lparr>queue := queue s @ [fn]\<rparr>)"

definition on_settled :: "nat \<Rightarrow> 'a limiter \<Rightarrow> 'a limiter" where
  "on_settled mx s = next_task mx (s\<lparr>active := active s - 1, settled := settled s + 1\<rparr>)"

definition running :: "'a limiter \<Rightarrow> nat" where
  "running s = length (started s) - settled s"

datatype 'a event = Submit 'a | Settle

fun step :: "nat \<Rightarrow> 'a limiter \<Rightarrow> 'a event \<Rightarrow> 'a limiter option" where
  "step mx s (Submit fn) = Some (limit mx fn s)"
| "step mx s Settle = (if running s = 0 then None else Some (on_settled mx s))"

fun exec :: "nat \<Rightarrow> 'a limiter \<Rightarrow> 'a event list \<Rightarrow> 'a limiter option" where
  "exec mx s [] = Some s"
| "exec mx s (e # es) = (case step mx s e of None \<Rightarrow> None | Some s' \<Rightarrow> exec mx s' es)"

fun submissions :: "'a event list \<Rightarrow> 'a list" where
  "submissions [] = []"
| "submissions (Submit fn # es) = fn # submissions es"
| "submissions (Settle # es) = submissions es"

definition limiter_inv :: "nat \<Rightarrow> 'a limiter \<Rightarrow> bool" where
  "limiter_inv mx s \<longleftrightarrow>
     settled s \<le> length (started s) \<and> active s = running s \<and> active s \<le> mx \<and>
     (queue s \<noteq> [] \<longrightarrow> active s = mx)"

definition charCode :: "char \<Rightarrow> nat" where
  "charCode c = of_char c"

definition lower :: "char \<Rightarrow> char" where
  "lower c = (if 65 \<le> charCode c \<and> charCode c \<le> 90 then char_of (charCode c + 32) else c)"

definition is_digit :: "char \<Rightarrow> bool" where
  "is_digit c \<longleftrightarrow> 48 \<le> charCode c \<and> charCode c \<le> 57"

datatype atom = Ch char | Digit

fun atom_ok :: "atom \<Rightarrow> char \<Rightarrow> bool" where
  "atom_ok (Ch p) c = (lower p = lower c)"
| "atom_ok Digit c = is_digit c"

fun match_here :: "atom list \<Rightarrow> string \<Rightarrow> bool" where
  "match_here [] s = True"
| "match_here (a # as) [] = False"
| "match_here (a # as) (c # cs) = (atom_ok a c \<and> match_here as cs)"

fun match_from :: "atom list \<Rightarrow> string \<Rightarrow> bool" where
  "match_from p [] = match_here p []"
| "match_from p (c # cs) = (match_here p (c # cs) \<or> match_from p cs)"

definition regex_test :: "atom list list \<Rightarrow> string \<Rightarrow> bool" where
  "regex_test alts s = list_ex (\<lambda>p. match_from p s) alts"

definition lit :: "string \<Rightarrow> atom list" where
  "lit s = map Ch s"

definition RATE_LIMIT_RE :: "atom list list" where
  "RATE_LIMIT_RE = [lit ''rate'', lit ''429'']"

definition RETRYABLE_RE :: "atom list list" where
  "RETRYABLE_RE = [lit ''rate'', lit ''429'', [Ch CHR ''5'', Digit, Digit], lit ''timeout'',
     lit ''ECONN'', lit ''ENOTFOUND'', lit ''EAI_AGAIN'', lit ''UND_ERR'', lit ''ETIMEDOUT'']"

definition isRateLimit :: "string \<Rightarrow> bool" where
  "isRateLimit message = regex_test RATE_LIMIT_RE message"

definition isRetryable :: "string \<Rightarrow> bool" where
  "isRetryable message = regex_test RETRYABLE_RE message"

definition digit_char :: "nat \<Rightarrow> char" where
  "digit_char d = char_of (48 + d)"

fun dec :: "nat \<Rightarrow> string" where
  "dec n = (if n < 10 then [digit_char n] else dec (n div 10) @ [digit_char (n mod 10)])"

declare dec.simps [simp del]

datatype 'a outcome = Ok 'a | Fail string

record 'a retried =
  result :: "'a outcome"
  attempts :: nat
  slept :: "real list"

definition backoff :: "string \<Rightarrow> nat \<Rightarrow> real \<Rightarrow> real" where
  "backoff message i random =
     (let baseDelay = (if isRateLimit message then 1000 else 300)
      in baseDelay * 2 ^ i + random * 500)"

function withRetry_loop ::
  "(nat \<Rightarrow> string + 'a) \<Rightarrow> nat \<Rightarrow> (nat \<Rightarrow> real) \<Rightarrow> nat \<Rightarrow> real list \<Rightarrow> string option \<Rightarrow> 'a retried"
where
  "withRetry_loop fn retries random i delays err =
     (if i \<le> retries then
        (case fn i of
           Inr val \<Rightarrow> \<lparr>result = Ok val, attempts = Suc i, slept = delays\<rparr>
         | Inl message \<Rightarrow>
             if \<not> isRetryable message \<or> i = retries
             then \<lparr>result = Fail message, attempts = Suc i, slept = delays\<rparr>
             else withRetry_loop fn retries random (Suc i)
                    (delays @ [backoff message i (random i)]) (Some message))
      else \<lparr>result = Fail (case err of None \<Rightarrow> ''Max retries''
                              | Some message \<Rightarrow> if message = [] then ''Max retries'' else message),
            attempts = i, slept = delays\<rparr>)"
  by pat_completeness auto

termination
  by (relation "measure (\<lambda>(fn, retries, random, i, delays, err). Suc retries - i)") auto

declare withRetry_loop.simps [simp del]

definition withRetry :: "(nat \<Rightarrow> string + 'a) \<Rightarrow> nat \<Rightarrow> (nat \<Rightarrow> real) \<Rightarrow> 'a retried" where
  "withRetry fn retries random = withRetry_loop fn retries random 0 [] None"

datatype jsval =
    JUndefined | JNull | JBool bool | JNum string | JStr string
  | JArr "jsval list" | JObj "(string \<times> jsval) list"

definition cannot_read :: "string \<Rightarrow> string \<Rightarrow> string" where
  "cannot_read what name =
     ''Cannot read properties of '' @ what @ '' (reading '' @ [CHR 0x27] @ name @ [CHR 0x27] @ '')''"

fun getProp :: "jsval \<Rightarrow> string \<Rightarrow> string + jsval" where
  "getProp JUndefined name = Inl (cannot_read ''undefined'' name)"
| "getProp JNull name = Inl (cannot_read ''null'' name)"
| "getProp (JObj kv) name = Inr (case map_of kv name of Some v \<Rightarrow> v | None \<Rightarrow> JUndefined)"
| "getProp v name = Inr JUndefined"

fun isArray :: "jsval \<Rightarrow> bool" where
  "isArray (JArr xs) = True"
| "isArray v = False"

fun typeof :: "jsval \<Rightarrow> string" where
  "typeof JUndefined = ''undefined''"
| "typeof JNull = ''object''"
| "typeof (JBool b) = ''boolean''"
| "typeof (JNum n) = ''number''"
| "typeof (JStr s) = ''string''"
| "typeof (JArr xs) = ''object''"
| "typeof (JObj kv) = ''object''"

fun truthy :: "jsval \<Rightarrow> bool" where
  "truthy JUndefined = False"
| "truthy JNull = False"
| "truthy (JBool b) = b"
| "truthy (JNum n) = (n \<noteq> ''0'')"
| "truthy (JStr s) = (s \<noteq> [])"
| "truthy (JArr xs) = True"
| "truthy (JObj kv) = True"

fun join :: "string \<Rightarrow> string list \<Rightarrow> string" where
  "join sep [] = []"
| "join sep [x] = x"
| "join sep (x # y # ys) = x @ sep @ join sep (y # ys)"

fun toString :: "jsval \<Rightarrow> string" where
  "toString JUndefined = ''undefined''"
| "toString JNull = ''null''"
| "toString (JBool b) = (if b then ''true'' else ''false'')"
| "toString (JNum n) = n"
| "toString (JStr s) = s"
| "toString (JArr xs) =
     join '','' (map (\<lambda>x. if x = JUndefined \<or> x = JNull then [] else toString x) xs)"
| "toString (JObj kv) = ''[object Object]''"

datatype body = Unparseable string | Parsed jsval

datatype response = Failed string | Answer nat body

datatype request = GET string | POST "string list"

record network =
  post :: response
  get :: "string \<Rightarrow> response"

definition checkSingle :: "response \<Rightarrow> string + bool" where
  "checkSingle r =
     (case r of
        Failed message \<Rightarrow> Inl message
      | Answer statusCode text \<Rightarrow>
          if statusCode = 429 then Inl ''Rate limited''
          else if statusCode \<ge> 500 then Inl (''Server error ('' @ dec statusCode @ '')'')
          else if statusCode < 200 \<or> statusCode \<ge> 300 then Inl (''HTTP '' @ dec statusCode)
          else (case text of
                  Unparseable message \<Rightarrow> Inl message
                | Parsed json \<Rightarrow>
                    (case getProp json ''available'' of
                       Inl message \<Rightarrow> Inl message
                     | Inr (JBool available) \<Rightarrow> Inr available
                     | Inr _ \<Rightarrow> Inl ''Invalid response'')))"

definition single_record :: "string \<Rightarrow> response \<Rightarrow> jsval" where
  "single_record username r =
     (case checkSingle r of
        Inr available \<Rightarrow> JObj [(''username'', JStr username), (''available'', JBool available)]
      | Inl message \<Rightarrow> JObj [(''username'', JStr username), (''available'', JNull),
                            (''error'', JStr message)])"

definition map_record :: "(string \<times> jsval) list \<Rightarrow> string \<Rightarrow> jsval" where
  "map_record kv u =
     JObj [(''username'', JStr u),
           (''available'',
              (case map_of kv u of Some (JBool b) \<Rightarrow> JBool b | _ \<Rightarrow> JNull))]"

definition batch_post :: "response \<Rightarrow> string list \<Rightarrow> jsval list option" where
  "batch_post r usernameBatch =
     (case r of
        Failed message \<Rightarrow> None
      | Answer statusCode text \<Rightarrow>
          if statusCode = 200 \<or> statusCode = 201 then
            (case text of
               Unparseable message \<Rightarrow> None
             | Parsed json \<Rightarrow>
                 (case getProp json ''results'' of
                    Inl message \<Rightarrow> None
                  | Inr results \<Rightarrow>
                      (case results of
                         JArr rs \<Rightarrow> Some rs
                       | _ \<Rightarrow>
                          (case json of
                             JObj kv \<Rightarrow>
                               if typeof json = ''object'' \<and> \<not> isArray json
                               then Some (map (map_record kv) usernameBatch) else None
                           | _ \<Rightarrow> None))))
          else None)"

definition checkBatch :: "network \<Rightarrow> string list \<Rightarrow> request list \<times> (string + jsval list)" where
  "checkBatch net usernameBatch =
     (if length usernameBatch = 1 then
        ([GET (usernameBatch ! 0)],
         (case checkSingle (get net (usernameBatch ! 0)) of
            Inl message \<Rightarrow> Inl message
          | Inr available \<Rightarrow>
              Inr [JObj [(''username'', JStr (usernameBatch ! 0)), (''available'', JBool available)]]))
      else
        (case batch_post (post net) usernameBatch of
           Some results \<Rightarrow> ([POST usernameBatch], Inr results)
         | None \<Rightarrow>
             (POST usernameBatch # map GET usernameBatch,
              Inr (map (\<lambda>username. single_record username (get net username)) usernameBatch))))"

record checkResult =
  username :: jsval
  available :: jsval
  ttc :: nat
  error :: jsval

datatype message = Result checkResult | Batch "checkResult list"

record worker =
  batch :: "checkResult list"
  posted :: "message list"

definition flush :: "worker \<Rightarrow> worker" where
  "flush w =
     (if batch w = [] then w
      else if length (batch w) = 1
        then w\<lparr>posted := posted w @ [Result (batch w ! 0)], batch := []\<rparr>
        else w\<lparr>posted := posted w @ [Batch (batch w)], batch := []\<rparr>)"

definition push :: "nat \<Rightarrow> worker \<Rightarrow> checkResult \<Rightarrow> worker" where
  "push BATCH w r =
     (let w' = w\<lparr>batch := batch w @ [r]\<rparr>
      in if length (batch w') \<ge> BATCH then flush w' else w')"

definition orNull :: "jsval \<Rightarrow> jsval" where
  "orNull v = (if truthy v then v else JNull)"

fun push_results :: "nat \<Rightarrow> nat \<Rightarrow> worker \<Rightarrow> jsval list \<Rightarrow> worker \<times> string option" where
  "push_results BATCH per w [] = (w, None)"
| "push_results BATCH per w (r # rs) =
     (case getProp r ''username'' of
        Inl message \<Rightarrow> (w, Some message)
      | Inr u \<Rightarrow>
         (case getProp r ''available'' of
            Inl message \<Rightarrow> (w, Some message)
          | Inr a \<Rightarrow>
             (case getProp r ''error'' of
                Inl message \<Rightarrow> (w, Some message)
              | Inr e \<Rightarrow>
                  push_results BATCH per
                    (push BATCH w \<lparr>username = u, available = a, ttc = per, error = orNull e\<rparr>) rs)))"

fun push_failed :: "nat \<Rightarrow> nat \<Rightarrow> string \<Rightarrow> worker \<Rightarrow> string list \<Rightarrow> worker" where
  "push_failed BATCH t err w [] = w"
| "push_failed BATCH t err w (u # us) =
     push_failed BATCH t err
       (push BATCH w \<lparr>username = JStr u, available = JNull, ttc = t, error = JStr err\<rparr>) us"

definition task ::
  "nat \<Rightarrow> (nat \<Rightarrow> network) \<Rightarrow> nat \<Rightarrow> (nat \<Rightarrow> real) \<Rightarrow> string list \<Rightarrow> worker \<Rightarrow> worker \<times> string option"
where
  "task BATCH net t random usernameBatch w =
     (case result (withRetry (\<lambda>i. snd (checkBatch (net i) usernameBatch)) 5 random) of
        Ok val \<Rightarrow> push_results BATCH (t div length usernameBatch) w val
      | Fail err \<Rightarrow> (push_failed BATCH t err w usernameBatch, None))"

function slices :: "nat \<Rightarrow> 'a list \<Rightarrow> nat \<Rightarrow> 'a list list" where
  "slices n xs i =
     (if i < length xs \<and> 0 < n then take n (drop i xs) # slices n xs (i + n) else [])"
  by pat_completeness auto

termination
  by (relation "measure (\<lambda>(n, xs, i). length xs - i)") auto

declare slices.simps [simp del]

record workerData =
  usernames :: "string list"
  concurrency :: nat
  verbose :: bool
  batchSize :: nat
  httpBatchSize :: nat

record environment =
  net :: "nat \<Rightarrow> nat \<Rightarrow> network"
  elapsed :: "nat \<Rightarrow> nat"
  random :: "nat \<Rightarrow> nat \<Rightarrow> real"
  completion :: "nat list"

fun run_tasks ::
  "nat \<Rightarrow> environment \<Rightarrow> string list list \<Rightarrow> nat list \<Rightarrow> worker \<Rightarrow> worker \<times> string option"
where
  "run_tasks BATCH env httpBatches [] w = (w, None)"
| "run_tasks BATCH env httpBatches (k # ks) w =
     (if k < length httpBatches then
        (case task BATCH (net env k) (elapsed env k) (random env k) (httpBatches ! k) w of
           (w', Some message) \<Rightarrow> (w', Some message)
         | (w', None) \<Rightarrow> run_tasks BATCH env httpBatches ks w')
      else run_tasks BATCH env httpBatches ks w)"

definition run :: "workerData \<Rightarrow> environment \<Rightarrow> (message list \<times> nat) option" where
  "run wd env =
     (if usernames wd \<noteq> [] \<and> (httpBatchSize wd = 0 \<or> concurrency wd = 0) then None
      else
        (let BATCH = (if verbose wd then 1 else batchSize wd);
             httpBatches = slices (httpBatchSize wd) (usernames wd) 0
         in case run_tasks BATCH env httpBatches (completion env) \<lparr>batch = [], posted = []\<rparr> of
              (w, Some message) \<Rightarrow> Some (posted w, 1)
            | (w, None) \<Rightarrow> Some (posted (flush w), 0)))"



definition is_space :: "char \<Rightarrow> bool" where
  "is_space c \<longleftrightarrow> charCode c \<in> {9, 10, 11, 12, 13, 32, 160}"

definition trim :: "string \<Rightarrow> string" where
  "trim s = rev (dropWhile is_space (rev (dropWhile is_space s)))"

definition cons_first :: "char \<Rightarrow> string list \<Rightarrow> string list" where
  "cons_first c ls = (case ls of [] \<Rightarrow> [[c]] | l # ls' \<Rightarrow> (c # l) # ls')"

fun split_lines :: "string \<Rightarrow> string list" where
  "split_lines [] = [[]]"
| "split_lines [c] = (if c = LF then [[], []] else [[c]])"
| "split_lines (c # d # cs) =
     (if c = LF then [] # split_lines (d # cs)
      else if c = CR \<and> d = LF then [] # split_lines cs
      else cons_first c (split_lines (d # cs)))"

definition first_field :: "string \<Rightarrow> string" where
  "first_field l = takeWhile (\<lambda>c. c \<noteq> TAB) l"






record orchestrator =
  checked :: nat
  avail :: nat
  taken :: nat
  errs :: nat
  lastUser :: string
  availStream :: "string list"
  takenStream :: "string list"
  errStream :: "string list"
  resolvedUsers :: "string list"
  newErrors :: "(string \<times> jsval) list"





fun results_of :: "message \<Rightarrow> checkResult list" where
  "results_of (Result r) = [r]"
| "results_of (Batch rs) = rs"


definition originalErrors :: "string \<Rightarrow> string list" where
  "originalErrors content = filter (\<lambda>l. l \<noteq> []) (split_lines content)"

definition ledger_key :: "string \<Rightarrow> string" where
  "ledger_key line = trim (first_field line)"

fun keep_unresolved :: "orchestrator \<Rightarrow> string list \<Rightarrow> string list \<Rightarrow> string list" where
  "keep_unresolved st finalErrors [] = finalErrors"
| "keep_unresolved st finalErrors (line # lines) =
     (let name = ledger_key line in
      if name \<notin> set (resolvedUsers st) \<and> map_of (newErrors st) name = None
      then keep_unresolved st (finalErrors @ [line]) lines
      else keep_unresolved st finalErrors lines)"

fun add_new_errors :: "string list \<Rightarrow> (string \<times> jsval) list \<Rightarrow> string list" where
  "add_new_errors finalErrors [] = finalErrors"
| "add_new_errors finalErrors ((name, reason) # rest) =
     add_new_errors (finalErrors @ [name @ [TAB] @ toString reason]) rest"

definition finalErrors :: "string \<Rightarrow> orchestrator \<Rightarrow> string list" where
  "finalErrors content st =
     add_new_errors (keep_unresolved st [] (originalErrors content)) (newErrors st)"




section \<open>Notions used in the statements about the worker\<close>





text \<open>
  Every result a worker has pushed so far, in the order of the pushes: the results of
  the messages already posted, then the buffer.
\<close>

definition emitted :: "worker \<Rightarrow> checkResult list" where
  "emitted w = concat (map results_of (posted w)) @ batch w"






section \<open>Notions used in the statements about the failure ledger\<close>








section \<open>Sharding is round-robin\<close>

lemma length_forEach_push: "length (forEach_push n i vs out) = length out"
  by (induction vs arbitrary: i out) auto

lemma forEach_push_nth:
  "0 < n \<Longrightarrow> length out = n \<Longrightarrow> k < n \<Longrightarrow>
   forEach_push n i vs out ! k =
     out ! k @ map ((!) vs) (filter (\<lambda>j. (i + j) mod n = k) [0..<length vs])"
proof (induction vs arbitrary: i out)
  case Nil
  then show ?case by simp
next
  case (Cons v vs)
  have up: "[0..<length (v # vs)] = 0 # map Suc [0..<length vs]"
    by (simp add: upt_conv_Cons map_Suc_upt del: upt_Suc)
  show ?case
    using Cons.prems
    by (simp only: forEach_push.simps up)
       (auto simp: Cons.IH filter_map o_def nth_list_update)
qed

lemma nths_as_index_filter:
  "nths xs A = map ((!) xs) (filter (\<lambda>i. i \<in> A) [0..<length xs])"
proof -
  have "zip xs [0..<length xs] = map (\<lambda>i. (xs ! i, i)) [0..<length xs]"
    by (rule nth_equalityI) auto
  then show ?thesis
    by (simp add: nths_def filter_map o_def)
qed

lemma mset_concat_push:
  "k < length out \<Longrightarrow> mset (concat (out[k := out ! k @ [v]])) = add_mset v (mset (concat out))"
proof (induction out arbitrary: k)
  case Nil
  then show ?case by simp
next
  case (Cons a out)
  then show ?case by (cases k) auto
qed

lemma mset_concat_forEach_push:
  "0 < n \<Longrightarrow> length out = n \<Longrightarrow>
   mset (concat (forEach_push n i vs out)) = mset (concat out) + mset vs"
  by (induction vs arbitrary: i out) (auto simp: mset_concat_push)

lemma shard_nth:
  assumes "0 < n" "k < n"
  shows "forEach_push n 0 arr (replicate n []) ! k = nths arr {i. i mod n = k}"
  using assms by (simp add: forEach_push_nth nths_as_index_filter)

lemma sorted_wrt_nths:
  "sorted_wrt R xs \<Longrightarrow> sorted_wrt R (nths xs A)"
  by (induction xs arbitrary: A) (auto simp: nths_Cons dest: in_set_nthsD)

lemma nth_in_nths_iff:
  assumes "distinct xs" "i < length xs"
  shows "xs ! i \<in> set (nths xs A) \<longleftrightarrow> i \<in> A"
  using assms by (auto simp: set_nths nth_eq_iff_index_eq)

text \<open>
  C7. For a worker count \<open>n > 0\<close>, \<open>shardArray\<close> returns \<open>n\<close> shards; shard \<open>k\<close> holds
  exactly the keys at the indices \<open>i\<close> with \<open>i mod n = k\<close>, in the order of the list
  (so the key at index \<open>i\<close> is in shard \<open>i mod n\<close>, every shard is a subsequence of the
  key list and is sorted whenever the list is); the shards together hold every key as
  often as the list does, and a key of a duplicate-free list is in no other shard.
\<close>

theorem shardArray_round_robin:
  assumes "0 < n"
  shows "\<exists>out. shardArray arr n = Inr out \<and> length out = n \<and>
           (\<forall>k<n. out ! k = nths arr {i. i mod n = k}) \<and>
           (\<forall>i<length arr. arr ! i \<in> set (out ! (i mod n))) \<and>
           mset (concat out) = mset arr \<and>
           (\<forall>k<n. subseq (out ! k) arr \<and> (\<forall>R. sorted_wrt R arr \<longrightarrow> sorted_wrt R (out ! k))) \<and>
           (distinct arr \<longrightarrow>
              (\<forall>i<length arr. \<forall>k<n. arr ! i \<in> set (out ! k) \<longleftrightarrow> k = i mod n))"
proof -
  define out where "out = forEach_push n 0 arr (replicate n [])"
  have run: "shardArray arr n = Inr out"
    using assms by (simp add: shardArray_def out_def)
  have len: "length out = n"
    by (simp add: out_def length_forEach_push)
  have nth: "out ! k = nths arr {i. i mod n = k}" if "k < n" for k
    using assms that by (simp add: out_def shard_nth)
  have own: "arr ! i \<in> set (out ! (i mod n))" if "i < length arr" for i
    using assms that by (auto simp: nth set_nths)
  have all: "mset (concat out) = mset arr"
    using assms by (simp add: out_def mset_concat_forEach_push)
  have sub: "subseq (out ! k) arr" if "k < n" for k
    using that by (auto simp: nth subseq_conv_nths)
  have srt: "sorted_wrt R (out ! k)" if "k < n" "sorted_wrt R arr" for k R
    using that by (simp add: nth sorted_wrt_nths)
  have one: "arr ! i \<in> set (out ! k) \<longleftrightarrow> k = i mod n"
    if "distinct arr" "i < length arr" "k < n" for i k
    using that by (auto simp: nth nth_in_nths_iff)
  show ?thesis
    using run len nth own all sub srt one by blast
qed

theorem shardArray_round_robin_witness:
  "0 < (2::nat) \<and>
   (\<exists>out. shardArray [''apple'', ''grape'', ''melon'', ''peach'', ''plum''] 2 = Inr out \<and>
      length out = 2 \<and>
      mset (concat out) = mset [''apple'', ''grape'', ''melon'', ''peach'', ''plum''])"
proof -
  have pos: "0 < (2::nat)" by simp
  from shardArray_round_robin [OF pos, of "[''apple'', ''grape'', ''melon'', ''peach'', ''plum'']"]
  have "\<exists>out. shardArray [''apple'', ''grape'', ''melon'', ''peach'', ''plum''] 2 = Inr out \<and>
      length out = 2 \<and>
      mset (concat out) = mset [''apple'', ''grape'', ''melon'', ''peach'', ''plum'']"
    by (elim exE conjE) (intro exI conjI, assumption+)
  with pos show ?thesis by (rule conjI)
qed


section \<open>The limiter admits at most \<open>max\<close> tasks, first-in first-out\<close>

lemma inv_init: "limiter_inv mx pLimit"
  by (simp add: limiter_inv_def pLimit_def running_def)

lemma inv_step:
  "limiter_inv mx s \<Longrightarrow> step mx s e = Some s' \<Longrightarrow> limiter_inv mx s'"
  by (cases e)
     (auto simp: limiter_inv_def limit_def on_settled_def next_task_def running_def
           split: if_splits)

lemma log_step:
  "step mx s e = Some s' \<Longrightarrow> started s' @ queue s' = started s @ queue s @ submissions [e]"
  by (cases e) (auto simp: limit_def on_settled_def next_task_def split: if_splits)

lemma submissions_append: "submissions (es @ fs) = submissions es @ submissions fs"
  by (induction es rule: submissions.induct) auto

lemma exec_inv:
  "limiter_inv mx s \<Longrightarrow> exec mx s es = Some t \<Longrightarrow>
   limiter_inv mx t \<and> started t @ queue t = started s @ queue s @ submissions es"
proof (induction es arbitrary: s)
  case Nil
  then show ?case by simp
next
  case (Cons e es)
  from Cons.prems(2) obtain s' where s': "step mx s e = Some s'" and t: "exec mx s' es = Some t"
    by (auto split: option.splits)
  from Cons.IH [OF inv_step [OF Cons.prems(1) s'] t] log_step [OF s']
  show ?case
    using submissions_append [of "[e]" es] by simp
qed

lemma settle_admits_one:
  assumes "limiter_inv mx s" "queue s \<noteq> []" "step mx s Settle = Some s'"
  shows "started s' = started s @ [hd (queue s)] \<and> queue s' = tl (queue s) \<and> running s' = mx"
  using assms
  by (auto simp: limiter_inv_def on_settled_def next_task_def running_def split: if_splits)

text \<open>
  C4. In every state the limiter reaches from \<open>pLimit\<close> by submissions and
  completions, at most \<open>C\<close> tasks run (and \<open>active\<close> counts exactly the running
  tasks); the tasks started so far, followed by the queue, are the submissions in their
  order, so tasks are admitted first-in first-out; a task waits in the queue only while
  \<open>C\<close> tasks run, and a completion in such a state admits exactly the head of the
  queue.
\<close>

theorem pLimit_bound_fifo:
  assumes "exec C pLimit evs = Some s"
  shows "running s \<le> C \<and> active s = running s \<and>
         started s @ queue s = submissions evs \<and>
         (queue s \<noteq> [] \<longrightarrow> running s = C) \<and>
         (\<forall>s'. queue s \<noteq> [] \<longrightarrow> step C s Settle = Some s' \<longrightarrow>
            started s' = started s @ [hd (queue s)] \<and> queue s' = tl (queue s) \<and> running s' = C)"
proof -
  from exec_inv [OF inv_init assms]
  have inv: "limiter_inv C s" and log: "started s @ queue s = submissions evs"
    by (simp_all add: pLimit_def)
  from inv have "running s \<le> C" "active s = running s" "queue s \<noteq> [] \<longrightarrow> running s = C"
    by (auto simp: limiter_inv_def)
  with log settle_admits_one [OF inv] show ?thesis by blast
qed

theorem pLimit_bound_fifo_witness:
  "exec 2 pLimit [Submit ''a'', Submit ''b'', Submit ''c'']
     = Some \<lparr>active = 2, queue = [''c''], started = [''a'', ''b''], settled = 0\<rparr> \<and>
   running \<lparr>active = 2, queue = [''c''], started = [''a'', ''b''], settled = 0\<rparr> \<le> 2 \<and>
   step 2 \<lparr>active = 2, queue = [''c''], started = [''a'', ''b''], settled = 0\<rparr> Settle
     = Some \<lparr>active = 2, queue = [], started = [''a'', ''b'', ''c''], settled = 1\<rparr>"
proof -
  have e: "exec 2 pLimit [Submit ''a'', Submit ''b'', Submit ''c'']
     = Some \<lparr>active = 2, queue = [''c''], started = [''a'', ''b''], settled = 0\<rparr>"
    by (simp add: pLimit_def limit_def next_task_def)
  have f: "step 2 \<lparr>active = 2, queue = [''c''], started = [''a'', ''b''], settled = 0\<rparr> Settle
     = Some \<lparr>active = 2, queue = [], started = [''a'', ''b'', ''c''], settled = 1\<rparr>"
    by (simp add: on_settled_def next_task_def running_def)
  from pLimit_bound_fifo [OF e] have "running \<lparr>active = 2, queue = [''c''], started = [''a'', ''b''], settled = 0\<rparr> \<le> 2"
    by (rule conjunct1)
  with e f show ?thesis by (intro conjI)
qed


section \<open>The retry controller\<close>

lemma loop_Ok:
  "i \<le> retries \<Longrightarrow> fn i = Inr v \<Longrightarrow>
   withRetry_loop fn retries rnd i delays err = \<lparr>result = Ok v, attempts = Suc i, slept = delays\<rparr>"
  by (subst withRetry_loop.simps) simp

lemma loop_fatal:
  "i \<le> retries \<Longrightarrow> fn i = Inl e \<Longrightarrow> \<not> isRetryable e \<Longrightarrow>
   withRetry_loop fn retries rnd i delays err = \<lparr>result = Fail e, attempts = Suc i, slept = delays\<rparr>"
  by (subst withRetry_loop.simps) simp

lemma loop_last:
  "fn retries = Inl e \<Longrightarrow>
   withRetry_loop fn retries rnd retries delays err
     = \<lparr>result = Fail e, attempts = Suc retries, slept = delays\<rparr>"
  by (subst withRetry_loop.simps) simp

lemma loop_again:
  "i < retries \<Longrightarrow> fn i = Inl e \<Longrightarrow> isRetryable e \<Longrightarrow>
   withRetry_loop fn retries rnd i delays err
     = withRetry_loop fn retries rnd (Suc i) (delays @ [backoff e i (rnd i)]) (Some e)"
  by (subst withRetry_loop.simps) simp

lemma loop_skip:
  assumes "\<forall>j<k. \<exists>e. fn j = Inl e \<and> isRetryable e" "k \<le> retries"
  shows "\<exists>delays err. withRetry fn retries rnd = withRetry_loop fn retries rnd k delays err
           \<and> length delays = k"
  using assms
proof (induction k)
  case 0
  have "withRetry fn retries rnd = withRetry_loop fn retries rnd 0 [] None \<and> length ([]::real list) = 0"
    by (simp add: withRetry_def)
  then show ?case by blast
next
  case (Suc k)
  then obtain delays err where
    eq: "withRetry fn retries rnd = withRetry_loop fn retries rnd k delays err"
    and len: "length delays = k"
    by auto
  from Suc.prems obtain e where e: "fn k = Inl e" "isRetryable e" by auto
  from Suc.prems have "k < retries" by simp
  then have "withRetry_loop fn retries rnd k delays err
     = withRetry_loop fn retries rnd (Suc k) (delays @ [backoff e k (rnd k)]) (Some e)"
    using e by (rule loop_again)
  with eq len have "withRetry fn retries rnd
       = withRetry_loop fn retries rnd (Suc k) (delays @ [backoff e k (rnd k)]) (Some e)
     \<and> length (delays @ [backoff e k (rnd k)]) = Suc k"
    by simp
  then show ?case by blast
qed

lemma attempts_gt:
  "i \<le> retries \<Longrightarrow> i < attempts (withRetry_loop fn retries rnd i delays err)"
proof (induction fn retries rnd i delays err rule: withRetry_loop.induct)
  case (1 fn retries rnd i delays err)
  show ?case
  proof (cases "fn i")
    case (Inr v)
    with 1 show ?thesis by (simp add: loop_Ok)
  next
    case (Inl e)
    show ?thesis
    proof (cases "\<not> isRetryable e \<or> i = retries")
      case True
      with 1 Inl show ?thesis by (auto simp: loop_fatal loop_last)
    next
      case False
      with 1 Inl have "Suc i < attempts (withRetry_loop fn retries rnd (Suc i)
             (delays @ [backoff e i (rnd i)]) (Some e))"
        by auto
      with False 1 Inl show ?thesis by (simp add: loop_again)
    qed
  qed
qed

lemma attempts_le:
  "i \<le> retries \<Longrightarrow> attempts (withRetry_loop fn retries rnd i delays err) \<le> Suc retries"
proof (induction fn retries rnd i delays err rule: withRetry_loop.induct)
  case (1 fn retries rnd i delays err)
  show ?case
  proof (cases "fn i")
    case (Inr v)
    with 1 show ?thesis by (simp add: loop_Ok)
  next
    case (Inl e)
    show ?thesis
    proof (cases "\<not> isRetryable e \<or> i = retries")
      case True
      with 1 Inl show ?thesis by (auto simp: loop_fatal loop_last)
    next
      case False
      with 1 Inl have "attempts (withRetry_loop fn retries rnd (Suc i)
             (delays @ [backoff e i (rnd i)]) (Some e)) \<le> Suc retries"
        by auto
      with False 1 Inl show ?thesis by (simp add: loop_again)
    qed
  qed
qed

lemma digit_char_is_digit: "d < 10 \<Longrightarrow> is_digit (digit_char d)"
  by (simp add: is_digit_def digit_char_def charCode_def)

lemma dec_5xx:
  assumes "500 \<le> n" "n < 600"
  shows "dec n = [CHR ''5'', digit_char (n div 10 mod 10), digit_char (n mod 10)]"
proof -
  have a: "n div 10 div 10 = 5" using assms by (simp add: div_mult2_eq)
  have b: "\<not> n < 10" "\<not> n div 10 < 10" using assms by simp_all
  have five: "digit_char 5 = CHR ''5''" by code_simp
  have "dec 5 = [digit_char 5]" by (subst dec.simps) simp
  with five have d5: "dec 5 = [CHR ''5'']" by simp
  have "dec (n div 10) = dec (n div 10 div 10) @ [digit_char (n div 10 mod 10)]"
    by (subst dec.simps) (simp only: b if_False)
  with a d5 have d2: "dec (n div 10) = [CHR ''5'', digit_char (n div 10 mod 10)]" by simp
  have "dec n = dec (n div 10) @ [digit_char (n mod 10)]"
    by (subst dec.simps) (simp only: b if_False)
  with d2 show ?thesis by simp
qed

lemma match_from_append: "match_from p t \<Longrightarrow> match_from p (s @ t)"
  by (induction s) auto

lemma server_error_retryable:
  assumes "500 \<le> n" "n < 600"
  shows "isRetryable (''Server error ('' @ dec n @ '')'')"
proof -
  have "match_here [Ch CHR ''5'', Digit, Digit] (dec n @ '')'')"
    using assms by (simp add: dec_5xx [OF assms] digit_char_is_digit lower_def)
  then have "match_from [Ch CHR ''5'', Digit, Digit] (dec n @ '')'')"
    by (cases "dec n @ '')''") auto
  then have "match_from [Ch CHR ''5'', Digit, Digit] (''Server error ('' @ dec n @ '')'')"
    by (rule match_from_append)
  then show ?thesis
    by (simp add: isRetryable_def regex_test_def RETRYABLE_RE_def)
qed

lemma rate_limit_retryable: "isRateLimit e \<Longrightarrow> isRetryable e"
  by (auto simp: isRateLimit_def isRetryable_def regex_test_def RATE_LIMIT_RE_def RETRYABLE_RE_def)

lemma rate_limited_retryable: "isRetryable ''Rate limited''"
  by code_simp

lemma http_404_fatal: "\<not> isRetryable ''HTTP 404''"
  by code_simp

lemma invalid_response_fatal: "\<not> isRetryable ''Invalid response''"
  by code_simp

lemma headers_timeout_retryable: "isRetryable ''Headers Timeout Error''"
  by code_simp

lemma econnrefused_retryable: "isRetryable ''connect ECONNREFUSED 127.0.0.1:443''"
  by code_simp

lemma backoff_order:
  assumes "isRateLimit e1" "\<not> isRateLimit e2" "0 \<le> r1" "r1 < 1" "0 \<le> r2" "r2 < 1"
  shows "backoff e2 i r2 < backoff e1 i r1"
proof -
  have "(1::real) \<le> 2 ^ i" by simp
  then have "(700::real) \<le> 700 * 2 ^ i" by simp
  moreover have "r2 * 500 < 500" "0 \<le> r1 * 500" using assms by simp_all
  ultimately have "300 * 2 ^ i + r2 * 500 < 1000 * 2 ^ i + r1 * 500" by linarith
  then show ?thesis using assms by (simp add: backoff_def)
qed

lemma loop_slept:
  "length delays = i0 \<Longrightarrow> i0 \<le> retries \<Longrightarrow>
   (\<forall>i<i0. slept (withRetry_loop fn retries rnd i0 delays err) ! i = delays ! i) \<and>
   (\<forall>i. i0 \<le> i \<and> Suc i < attempts (withRetry_loop fn retries rnd i0 delays err) \<longrightarrow>
      (\<exists>e. fn i = Inl e \<and> isRetryable e \<and>
           slept (withRetry_loop fn retries rnd i0 delays err) ! i = backoff e i (rnd i)))"
proof (induction fn retries rnd i0 delays err rule: withRetry_loop.induct)
  case (1 fn retries rnd i0 delays err)
  show ?case
  proof (cases "fn i0")
    case (Inr v)
    with 1 show ?thesis by (auto simp: loop_Ok)
  next
    case (Inl e)
    show ?thesis
    proof (cases "\<not> isRetryable e \<or> i0 = retries")
      case True
      with 1 Inl show ?thesis by (auto simp: loop_fatal loop_last)
    next
      case False
      let ?d = "delays @ [backoff e i0 (rnd i0)]"
      let ?r = "withRetry_loop fn retries rnd (Suc i0) ?d (Some e)"
      from False 1 Inl have eq: "withRetry_loop fn retries rnd i0 delays err = ?r"
        by (simp add: loop_again)
      from False 1 Inl have
        ih: "(\<forall>i<Suc i0. slept ?r ! i = ?d ! i) \<and>
             (\<forall>i. Suc i0 \<le> i \<and> Suc i < attempts ?r \<longrightarrow>
                (\<exists>e. fn i = Inl e \<and> isRetryable e \<and> slept ?r ! i = backoff e i (rnd i)))"
        by auto
      have old: "slept ?r ! i = delays ! i" if "i < i0" for i
        using ih that "1.prems" by (simp add: nth_append)
      have new: "slept ?r ! i0 = backoff e i0 (rnd i0)"
        using ih "1.prems" by (simp add: nth_append)
      have "\<exists>e. fn i = Inl e \<and> isRetryable e \<and> slept ?r ! i = backoff e i (rnd i)"
        if "i0 \<le> i" "Suc i < attempts ?r" for i
      proof (cases "i = i0")
        case True
        with new Inl False show ?thesis by simp
      next
        case False
        with that have "Suc i0 \<le> i" by simp
        with ih that show ?thesis by blast
      qed
      with old show ?thesis unfolding eq by blast
    qed
  qed
qed

lemma slept_nth:
  assumes "Suc i < attempts (withRetry fn retries rnd)"
  shows "\<exists>e. fn i = Inl e \<and> isRetryable e \<and>
             slept (withRetry fn retries rnd) ! i = backoff e i (rnd i)"
  using loop_slept [of "[]" 0 retries fn rnd None] assms
  by (simp add: withRetry_def)


lemma rate_limit_retried:
  assumes "0 < R" "h 0 = Inl e" "isRateLimit e"
  shows "2 \<le> attempts (withRetry h R rnd)"
proof -
  have "isRetryable e"
    using assms(3) by (rule rate_limit_retryable)
  with assms have "withRetry h R rnd
      = withRetry_loop h R rnd (Suc 0) ([] @ [backoff e 0 (rnd 0)]) (Some e)"
    unfolding withRetry_def by (intro loop_again)
  moreover have "Suc 0 < attempts (withRetry_loop h R rnd (Suc 0) ([] @ [backoff e 0 (rnd 0)]) (Some e))"
    using assms(1) by (intro attempts_gt) simp
  ultimately show ?thesis by simp
qed

lemma retried_once:
  assumes "0 < R" "fn 0 = Inl e" "isRetryable e" "fn (Suc 0) = Inr v"
  shows "withRetry fn R rnd = \<lparr>result = Ok v, attempts = 2, slept = [backoff e 0 (rnd 0)]\<rparr>"
proof -
  have "withRetry fn R rnd = withRetry_loop fn R rnd (Suc 0) ([] @ [backoff e 0 (rnd 0)]) (Some e)"
    unfolding withRetry_def using assms(1-3) by (intro loop_again)
  also have "\<dots> = \<lparr>result = Ok v, attempts = Suc (Suc 0), slept = [] @ [backoff e 0 (rnd 0)]\<rparr>"
    using assms(1,4) by (intro loop_Ok) simp_all
  finally show ?thesis by (simp add: numeral_2_eq_2)
qed

lemma withRetry_first_ok:
  "fn 0 = Inr v \<Longrightarrow> withRetry fn R rnd = \<lparr>result = Ok v, attempts = 1, slept = []\<rparr>"
  by (simp add: withRetry_def loop_Ok)


lemma withRetry_first_fatal:
  "fn 0 = Inl e \<Longrightarrow> \<not> isRetryable e \<Longrightarrow>
   withRetry fn R rnd = \<lparr>result = Fail e, attempts = 1, slept = []\<rparr>"
  by (simp add: withRetry_def loop_fatal)


lemma checkSingle_429: "checkSingle (Answer 429 body) = Inl ''Rate limited''"
  by (simp add: checkSingle_def)

lemma checkSingle_5xx:
  "500 \<le> statusCode \<Longrightarrow>
   checkSingle (Answer statusCode body) = Inl (''Server error ('' @ dec statusCode @ '')'')"
  by (simp add: checkSingle_def)

text \<open>
  The control flow of the controller. Let the first \<open>k \<le> R\<close> attempts of the wrapped
  operation fail with errors that \<open>isRetryable\<close> accepts. Then attempt \<open>k\<close> is made, and
  at most \<open>R + 1\<close> attempts are made in all. If attempt \<open>k\<close> succeeds its value is
  returned; if it fails with an error that is not retryable, that error is returned at
  once; if it is attempt \<open>R\<close> and fails, the result is the failure carrying the message
  of that last error. \<open>checkSingle\<close>'s errors for status 429 and for a status from 500
  to 599 are retryable, as is every message that contains \<open>timeout\<close>, \<open>ECONN\<close>,
  \<open>ENOTFOUND\<close>, \<open>EAI_AGAIN\<close> or \<open>ETIMEDOUT\<close>.
\<close>

theorem withRetry_classification:
  assumes "k \<le> R" and "\<forall>j<k. \<exists>e. fn j = Inl e \<and> isRetryable e"
  shows "k < attempts (withRetry fn R rnd) \<and> attempts (withRetry fn R rnd) \<le> Suc R \<and>
         (\<forall>v. fn k = Inr v \<longrightarrow>
            result (withRetry fn R rnd) = Ok v \<and> attempts (withRetry fn R rnd) = Suc k) \<and>
         (\<forall>e. fn k = Inl e \<and> \<not> isRetryable e \<longrightarrow>
            result (withRetry fn R rnd) = Fail e \<and> attempts (withRetry fn R rnd) = Suc k) \<and>
         (\<forall>e. fn k = Inl e \<and> k = R \<longrightarrow>
            result (withRetry fn R rnd) = Fail e \<and> attempts (withRetry fn R rnd) = Suc R) \<and>
         (\<forall>body. \<exists>e. checkSingle (Answer 429 body) = Inl e \<and> isRetryable e) \<and>
         (\<forall>code body. 500 \<le> code \<and> code < 600 \<longrightarrow>
            (\<exists>e. checkSingle (Answer code body) = Inl e \<and> isRetryable e)) \<and>
         (\<forall>e. match_from (lit ''timeout'') e \<or> match_from (lit ''ECONN'') e \<or>
              match_from (lit ''ENOTFOUND'') e \<or> match_from (lit ''EAI_AGAIN'') e \<or>
              match_from (lit ''ETIMEDOUT'') e \<longrightarrow> isRetryable e)"
proof -
  from loop_skip [OF assms(2,1), of rnd] obtain delays err where
    eq: "withRetry fn R rnd = withRetry_loop fn R rnd k delays err" by blast
  have made: "k < attempts (withRetry fn R rnd)"
    unfolding eq using assms(1) by (rule attempts_gt)
  have bound: "attempts (withRetry fn R rnd) \<le> Suc R"
    unfolding eq using assms(1) by (rule attempts_le)
  have ok: "result (withRetry fn R rnd) = Ok v \<and> attempts (withRetry fn R rnd) = Suc k"
    if "fn k = Inr v" for v
    unfolding eq using assms(1) that by (simp add: loop_Ok)
  have fatal: "result (withRetry fn R rnd) = Fail e \<and> attempts (withRetry fn R rnd) = Suc k"
    if "fn k = Inl e" "\<not> isRetryable e" for e
    unfolding eq using assms(1) that by (simp add: loop_fatal)
  have last: "result (withRetry fn R rnd) = Fail e \<and> attempts (withRetry fn R rnd) = Suc R"
    if "fn k = Inl e" "k = R" for e
    unfolding eq using that by (simp add: loop_last)
  have c429: "\<exists>e. checkSingle (Answer 429 body) = Inl e \<and> isRetryable e" for body
    by (simp add: checkSingle_429 rate_limited_retryable)
  have c5xx: "\<exists>e. checkSingle (Answer code body) = Inl e \<and> isRetryable e"
    if "500 \<le> code" "code < 600" for code body
    using that server_error_retryable [of code] by (simp add: checkSingle_5xx)
  have words: "isRetryable e"
    if "match_from (lit ''timeout'') e \<or> match_from (lit ''ECONN'') e \<or>
        match_from (lit ''ENOTFOUND'') e \<or> match_from (lit ''EAI_AGAIN'') e \<or>
        match_from (lit ''ETIMEDOUT'') e" for e
    using that by (auto simp: isRetryable_def regex_test_def RETRYABLE_RE_def)
  from made bound ok fatal last c429 c5xx words show ?thesis by blast
qed

theorem withRetry_classification_witness:
  "(1::nat) \<le> 5 \<and> isRetryable ''Rate limited'' \<and>
   result (withRetry (\<lambda>i. if i = 0 then Inl ''Rate limited'' else Inr True) 5 (\<lambda>i. 0)) = Ok True \<and>
   attempts (withRetry (\<lambda>i. if i = 0 then Inl ''Rate limited'' else Inr True) 5 (\<lambda>i. 0)) = 2"
proof -
  let ?fn = "\<lambda>i::nat. if i = 0 then Inl ''Rate limited'' else (Inr True :: string + bool)"
  have le: "(1::nat) \<le> 5" by simp
  have first: "\<forall>j<1. \<exists>e. ?fn j = Inl e \<and> isRetryable e"
    by (simp add: rate_limited_retryable)
  from withRetry_classification [OF le first, of "\<lambda>i. 0"]
  have "\<forall>v. ?fn 1 = Inr v \<longrightarrow>
          result (withRetry ?fn 5 (\<lambda>i. 0)) = Ok v \<and> attempts (withRetry ?fn 5 (\<lambda>i. 0)) = Suc 1"
    by (elim conjE)
  then have "?fn 1 = Inr True \<longrightarrow>
          result (withRetry ?fn 5 (\<lambda>i. 0)) = Ok True \<and> attempts (withRetry ?fn 5 (\<lambda>i. 0)) = Suc 1"
    by (rule spec)
  moreover have "?fn 1 = Inr True" by simp
  ultimately have "result (withRetry ?fn 5 (\<lambda>i. 0)) = Ok True \<and>
      attempts (withRetry ?fn 5 (\<lambda>i. 0)) = Suc 1"
    by (rule mp)
  then have "result (withRetry ?fn 5 (\<lambda>i. 0)) = Ok True"
    and "attempts (withRetry ?fn 5 (\<lambda>i. 0)) = 2"
    by simp_all
  with le rate_limited_retryable show ?thesis by (intro conjI)
qed

text \<open>
  C5 fails on the code. The controller classifies an error by matching the text of its
  message. The runtime's error for a connection that the server closed has the message
  \<open>other side closed\<close> (its code, \<open>UND_ERR_SOCKET\<close>, is not part of the message):
  no alternative of the pattern matches it, so the operation is returned as a failure
  after one attempt, although the pattern lists \<open>UND_ERR\<close> among the retryable errors.
  In the other direction, the message of a body that is not JSON,
  \<open>Unexpected token < in JSON at position 523\<close>, matches the alternative meant for the
  status codes 5xx and is retried.
\<close>

theorem withRetry_connection_closed_not_retried:
  "\<not> isRetryable ''other side closed'' \<and>
   withRetry (\<lambda>i. Inl ''other side closed'') 5 rnd
     = \<lparr>result = Fail ''other side closed'', attempts = 1, slept = []\<rparr> \<and>
   isRetryable ''Unexpected token < in JSON at position 523'' \<and>
   attempts (withRetry (\<lambda>i. if i = 0 then Inl ''Unexpected token < in JSON at position 523''
                            else Inr v) 5 rnd) = 2"
proof -
  have closed: "\<not> isRetryable ''other side closed''" by code_simp
  have w1: "withRetry (\<lambda>i. Inl ''other side closed'') 5 rnd
      = \<lparr>result = Fail ''other side closed'', attempts = 1, slept = []\<rparr>"
    using closed by (intro withRetry_first_fatal) simp_all
  have pos: "isRetryable ''Unexpected token < in JSON at position 523''" by code_simp
  have "withRetry (\<lambda>i. if i = 0 then Inl ''Unexpected token < in JSON at position 523''
                       else Inr v) 5 rnd
      = \<lparr>result = Ok v, attempts = 2,
         slept = [backoff ''Unexpected token < in JSON at position 523'' 0 (rnd 0)]\<rparr>"
    using pos by (intro retried_once) simp_all
  then have w2: "attempts (withRetry (\<lambda>i. if i = 0 then Inl ''Unexpected token < in JSON at position 523''
                       else Inr v) 5 rnd) = 2"
    by simp
  from closed w1 pos w2 show ?thesis by (intro conjI)
qed

text \<open>
  C6. When the controller sleeps after attempt \<open>i\<close> of one operation that failed there
  with a rate-limit error and after attempt \<open>i\<close> of another that failed there with a
  retryable error that is not a rate limit, the first delay is strictly longer, whatever
  the two jitter values in \<open>[0, 1)\<close> are. And with at least one retry allowed, an
  operation whose first attempt fails with a rate-limit error is attempted again.
\<close>

theorem rate_limit_backoff_longer:
  assumes "isRateLimit ef" and "\<not> isRateLimit eg"
      and "(f :: nat \<Rightarrow> string + 'a) i = Inl ef" and "Suc i < attempts (withRetry f R rf)"
      and "g i = Inl eg" and "Suc i < attempts (withRetry g R' rg)"
      and "0 \<le> rf i" "rf i < 1" "0 \<le> rg i" "rg i < 1"
  shows "slept (withRetry g R' rg) ! i < slept (withRetry f R rf) ! i \<and>
         slept (withRetry f R rf) ! i = backoff ef i (rf i) \<and>
         slept (withRetry g R' rg) ! i = backoff eg i (rg i) \<and>
         (\<forall>(h :: nat \<Rightarrow> string + 'a) S rh.
            0 < S \<and> h 0 = Inl ef \<longrightarrow> 2 \<le> attempts (withRetry h S rh))"
proof -
  from slept_nth [OF assms(4)] assms(3)
  have f: "slept (withRetry f R rf) ! i = backoff ef i (rf i)" by auto
  from slept_nth [OF assms(6)] assms(5)
  have g: "slept (withRetry g R' rg) ! i = backoff eg i (rg i)" by auto
  have "backoff eg i (rg i) < backoff ef i (rf i)"
    using assms(1,2,7-10) by (rule backoff_order)
  moreover have "2 \<le> attempts (withRetry h S rh)" if "0 < S" "h 0 = Inl ef"
    for h :: "nat \<Rightarrow> string + 'a" and S rh
    using that assms(1) by (rule rate_limit_retried)
  ultimately show ?thesis using f g by auto
qed

theorem rate_limit_backoff_longer_witness:
  "isRateLimit ''Rate limited'' \<and> \<not> isRateLimit ''Server error (503)'' \<and>
   slept (withRetry (\<lambda>i. if i = 0 then Inl ''Rate limited'' else Inr True) 5 (\<lambda>i. 0)) ! 0 = 1000 \<and>
   slept (withRetry (\<lambda>i. if i = 0 then Inl ''Server error (503)'' else Inr True) 5 (\<lambda>i. 9 / 10)) ! 0 = 750 \<and>
   slept (withRetry (\<lambda>i. if i = 0 then Inl ''Server error (503)'' else Inr True) 5 (\<lambda>i. 9 / 10)) ! 0
     < slept (withRetry (\<lambda>i. if i = 0 then Inl ''Rate limited'' else Inr True) 5 (\<lambda>i. 0)) ! 0"
proof -
  let ?f = "\<lambda>i::nat. if i = 0 then Inl ''Rate limited'' else (Inr True :: string + bool)"
  let ?g = "\<lambda>i::nat. if i = 0 then Inl ''Server error (503)'' else (Inr True :: string + bool)"
  let ?rf = "\<lambda>i::nat. 0::real"
  let ?rg = "\<lambda>i::nat. 9 / 10 :: real"
  have rate: "isRateLimit ''Rate limited''" by code_simp
  have norate: "\<not> isRateLimit ''Server error (503)''" by code_simp
  have retry: "isRetryable ''Server error (503)''" by code_simp
  have wf: "withRetry ?f 5 ?rf
      = \<lparr>result = Ok True, attempts = 2, slept = [backoff ''Rate limited'' 0 (?rf 0)]\<rparr>"
    by (rule retried_once) (simp_all add: rate_limited_retryable)
  have wg: "withRetry ?g 5 ?rg
      = \<lparr>result = Ok True, attempts = 2, slept = [backoff ''Server error (503)'' 0 (?rg 0)]\<rparr>"
    by (rule retried_once) (simp_all add: retry)
  have af: "Suc 0 < attempts (withRetry ?f 5 ?rf)" by (simp add: wf)
  have ag: "Suc 0 < attempts (withRetry ?g 5 ?rg)" by (simp add: wg)
  have f0: "?f 0 = Inl ''Rate limited''" and g0: "?g 0 = Inl ''Server error (503)''"
    by simp_all
  have j: "0 \<le> ?rf 0" "?rf 0 < 1" "0 \<le> ?rg 0" "?rg 0 < 1"
    by simp_all
  have less: "slept (withRetry ?g 5 ?rg) ! 0 < slept (withRetry ?f 5 ?rf) ! 0"
    using rate_limit_backoff_longer [OF rate norate f0 af g0 ag j]
    by (rule conjunct1)
  have vf: "slept (withRetry ?f 5 ?rf) ! 0 = 1000"
    by (simp add: wf backoff_def rate)
  have vg: "slept (withRetry ?g 5 ?rg) ! 0 = 750"
    by (simp add: wg backoff_def norate)
  from rate norate vf vg less show ?thesis by (intro conjI)
qed


section \<open>The batch requester and the worker\<close>

lemma emitted_flush: "emitted (flush w) = emitted w"
  by (cases "batch w") (auto simp: emitted_def flush_def)

lemma emitted_push: "emitted (push BATCH w r) = emitted w @ [r]"
proof -
  have "emitted (w\<lparr>batch := batch w @ [r]\<rparr>) = emitted w @ [r]"
    by (simp add: emitted_def)
  then show ?thesis
    by (simp add: push_def Let_def emitted_flush)
qed



lemma batch_post_results:
  assumes "code = 200 \<or> code = 201" "map_of kv ''results'' = Some (JArr rs)"
  shows "batch_post (Answer code (Parsed (JObj kv))) usernameBatch = Some rs"
  using assms by (auto simp: batch_post_def)






lemma emitted_push_failed:
  "emitted (push_failed BATCH t err w us) =
     emitted w @ map (\<lambda>u. \<lparr>username = JStr u, available = JNull, ttc = t, error = JStr err\<rparr>) us"
  by (induction us arbitrary: w) (simp_all add: emitted_push)










lemma slices_pair: "slices 2 [a, b] 0 = [[a, b]]"
  by (subst slices.simps, simp, subst slices.simps, simp)

text \<open>
  C1 fails on the code. A worker is given the keys \<open>abc\<close> and \<open>def\<close> with an HTTP batch
  size of 2, and the batch endpoint answers 200 with \<open>{"results": []}\<close>. \<open>checkBatch\<close>
  returns the array of the answer as it is, \<open>run\<close> pushes one result per element of
  that array, and the worker ends with exit code 0 having posted no message: neither
  key is reported. (The map form, the single-key fallback and the failure branch of
  \<open>run\<close> all produce one result per key of the batch.)
\<close>

theorem run_results_array_drops_keys:
  "run \<lparr>usernames = [''abc'', ''def''], concurrency = 200, verbose = True, batchSize = 1,
        httpBatchSize = 2\<rparr>
       \<lparr>net = (\<lambda>k i. \<lparr>post = Answer 200 (Parsed (JObj [(''results'', JArr [])])),
                      get = (\<lambda>u. Failed ''not called'')\<rparr>),
        elapsed = (\<lambda>k. 40), random = (\<lambda>k i. 0), completion = [0]\<rparr>
     = Some ([], 0)"
proof -
  let ?nw = "\<lambda>i::nat. \<lparr>post = Answer 200 (Parsed (JObj [(''results'', JArr [])])),
                         get = (\<lambda>u. Failed ''not called'')\<rparr>"
  have cb: "checkBatch (?nw i) [''abc'', ''def''] = ([POST [''abc'', ''def'']], Inr [])" for i
    by (simp add: checkBatch_def batch_post_def)
  have wr: "withRetry (\<lambda>i. snd (checkBatch (?nw i) [''abc'', ''def''])) 5 (\<lambda>i. 0)
      = \<lparr>result = Ok [], attempts = 1, slept = []\<rparr>"
    by (rule withRetry_first_ok) (simp add: cb)
  have tk: "task B ?nw 40 (\<lambda>i. 0) [''abc'', ''def''] \<lparr>batch = [], posted = []\<rparr>
      = (\<lparr>batch = [], posted = []\<rparr>, None)" for B
    by (simp add: task_def wr)
  show ?thesis
    by (simp add: run_def slices_pair tk flush_def)
qed

section \<open>The failure ledger of a retry run\<close>











subsection \<open>Lines and keys\<close>





























end
